theory Spec2Isabelle
  imports Complex_Main "HOL-Library.Sublist"
begin

section \<open>Characters and strings of the SQL text\<close>

text \<open>
  The model covers ASCII text: a Python \<open>str\<close> is a list of \<open>char\<close>, and the
  character classes below are those of Python on code points below 128 (a character
  above 127 is treated as caseless, not a word character and not whitespace).
\<close>

definition is_upper :: "char \<Rightarrow> bool" where
  "is_upper c = (65 \<le> (of_char c :: nat) \<and> (of_char c :: nat) \<le> 90)"

definition is_lower :: "char \<Rightarrow> bool" where
  "is_lower c = (97 \<le> (of_char c :: nat) \<and> (of_char c :: nat) \<le> 122)"

definition is_digit :: "char \<Rightarrow> bool" where
  "is_digit c = (48 \<le> (of_char c :: nat) \<and> (of_char c :: nat) \<le> 57)"

text \<open>\<open>str.lower()\<close> and \<open>str.upper()\<close>, character by character.\<close>

definition lower_char :: "char \<Rightarrow> char" where
  "lower_char c = (if is_upper c then char_of ((of_char c :: nat) + 32) else c)"


definition lower :: "string \<Rightarrow> string" where
  "lower s = map lower_char s"


section \<open>Identifier quoting\<close>




section \<open>Rewriting table references in generated SQL\<close>

text \<open>
  The pattern of \<open>_process_sql_query\<close> is
  \<^verbatim>\<open>\b(FROM|JOIN|UPDATE|INTO|TABLE)\s+([a-zA-Z_][a-zA-Z0-9_]*)\b\<close>
  with \<open>re.IGNORECASE\<close>. Its pieces are modelled one by one: the word character class
  \<open>\w\<close> that decides \<open>\b\<close>, the whitespace class \<open>\s\<close> (Python's
  \<open>str.isspace\<close> on ASCII: tab to carriage return, the four separators 28 to 31,
  and the space), the two identifier classes, and the case-insensitive literals.
\<close>

definition is_word :: "char \<Rightarrow> bool" where
  "is_word c = (is_lower c \<or> is_upper c \<or> is_digit c \<or> c = CHR ''_'')"

definition is_space :: "char \<Rightarrow> bool" where
  "is_space c =
     ((9 \<le> (of_char c :: nat) \<and> (of_char c :: nat) \<le> 13) \<or>
      (28 \<le> (of_char c :: nat) \<and> (of_char c :: nat) \<le> 32))"

definition is_ident_start :: "char \<Rightarrow> bool" where
  "is_ident_start c = (is_lower c \<or> is_upper c \<or> c = CHR ''_'')"

definition is_ident_char :: "char \<Rightarrow> bool" where
  "is_ident_char c = (is_lower c \<or> is_upper c \<or> is_digit c \<or> c = CHR ''_'')"

text \<open>
  \<open>\b\<close> holds between two positions exactly when one side is a word character and the
  other is not; the start and the end of the text count as not a word character.
  The flag says whether the character before the position is a word character.
\<close>

definition at_boundary :: "bool \<Rightarrow> string \<Rightarrow> bool" where
  "at_boundary prev_word s = (prev_word \<noteq> (case s of [] \<Rightarrow> False | c # _ \<Rightarrow> is_word c))"

definition table_keywords :: "string list" where
  "table_keywords = [''FROM'', ''JOIN'', ''UPDATE'', ''INTO'', ''TABLE'']"

text \<open>A literal matched without regard to case: the matched text and what follows it.\<close>

fun match_literal :: "string \<Rightarrow> string \<Rightarrow> (string \<times> string) option" where
  "match_literal [] s = Some ([], s)"
| "match_literal (p # ps) [] = None"
| "match_literal (p # ps) (c # cs) =
     (if lower_char c = lower_char p
      then (case match_literal ps cs of
              None \<Rightarrow> None
            | Some (m, r) \<Rightarrow> Some (c # m, r))
      else None)"

text \<open>
  The part of the pattern after the keyword, \<open>\s+([a-zA-Z_][a-zA-Z0-9_]*)\b\<close>: the
  identifier (group 2) and the text after the match. Both repetitions are greedy. Giving
  whitespace back leaves a whitespace character where the identifier must start, and
  giving identifier characters back leaves the end of the match between two word
  characters, where \<open>\b\<close> fails, so the greedy attempt is the only one that can succeed
  (\<open>shorter_whitespace_no_identifier\<close> and \<open>shorter_identifier_no_boundary\<close> below).
\<close>

definition match_reference :: "string \<Rightarrow> (string \<times> string) option" where
  "match_reference s =
     (if takeWhile is_space s = [] then None
      else (case dropWhile is_space s of
              [] \<Rightarrow> None
            | c # cs \<Rightarrow>
                if is_ident_start c
                then (let ident = c # takeWhile is_ident_char cs;
                          rest = dropWhile is_ident_char cs
                      in if at_boundary (is_word (last ident)) rest
                         then Some (ident, rest) else None)
                else None))"

text \<open>
  The alternation tries the keywords in order; an alternative whose continuation fails
  is abandoned for the next one. The result is group 1, group 2 and the text after
  the match.
\<close>

fun match_alternatives :: "string list \<Rightarrow> string \<Rightarrow> (string \<times> string \<times> string) option" where
  "match_alternatives [] s = None"
| "match_alternatives (k # ks) s =
     (case match_literal k s of
        None \<Rightarrow> match_alternatives ks s
      | Some (kw, r) \<Rightarrow>
          (case match_reference r of
             None \<Rightarrow> match_alternatives ks s
           | Some (ident, rest) \<Rightarrow> Some (kw, ident, rest)))"

definition match_at :: "bool \<Rightarrow> string \<Rightarrow> (string \<times> string \<times> string) option" where
  "match_at prev_word s =
     (if at_boundary prev_word s then match_alternatives table_keywords s else None)"

text \<open>
  \<open>re.sub\<close> walks the text from left to right. Where the pattern matches it calls the
  replacement function on the match and goes on after the match; elsewhere it copies
  one character and moves one position. The walk is recorded as a list of segments.
\<close>

datatype segment = Lit char | Ref string string

function re_scan :: "bool \<Rightarrow> string \<Rightarrow> segment list" where
  "re_scan prev_word [] = []"
| "re_scan prev_word (c # cs) =
     (case match_at prev_word (c # cs) of
        None \<Rightarrow> Lit c # re_scan (is_word c) cs
      | Some (kw, ident, rest) \<Rightarrow> Ref kw ident # re_scan (is_word (last ident)) rest)"
  by pat_completeness auto

text \<open>Every match consumes at least one character, so the walk ends.\<close>

lemma match_literal_length:
  "match_literal p s = Some (m, r) \<Longrightarrow> length s = length m + length r \<and> length m = length p"
  by (induction p s arbitrary: m r rule: match_literal.induct)
     (auto split: if_splits option.splits)

lemma match_reference_length:
  assumes "match_reference s = Some (i, r)"
  shows "length r < length s"
proof -
  from assms obtain c cs
    where d: "dropWhile is_space s = c # cs" and r: "r = dropWhile is_ident_char cs"
    by (auto simp: match_reference_def Let_def split: if_splits list.splits)
  have "length r \<le> length cs"
    unfolding r by (rule length_dropWhile_le)
  moreover have "length (c # cs) \<le> length s"
    unfolding d[symmetric] by (rule length_dropWhile_le)
  ultimately show ?thesis by simp
qed

lemma match_alternatives_length:
  "match_alternatives ks s = Some (kw, i, r) \<Longrightarrow> length r < length s"
proof (induction ks)
  case Nil
  then show ?case by simp
next
  case (Cons k ks)
  then show ?case
    by (auto split: option.splits dest!: match_literal_length match_reference_length)
qed

lemma match_at_length: "match_at pw s = Some (kw, i, r) \<Longrightarrow> length r < length s"
  by (auto simp: match_at_def split: if_splits dest: match_alternatives_length)

termination re_scan
  by (relation "measure (\<lambda>(p, s). length s)") (auto dest: match_at_length)

definition render :: "(string \<Rightarrow> string \<Rightarrow> string) \<Rightarrow> segment \<Rightarrow> string" where
  "render repl seg = (case seg of Lit c \<Rightarrow> [c] | Ref kw ident \<Rightarrow> repl kw ident)"


text \<open>
  \<open>re.findall\<close> with the same pattern: the pairs (group 1, group 2) of the matches
  that \<open>re.sub\<close> replaces, in order.
\<close>

definition re_findall :: "string \<Rightarrow> (string \<times> string) list" where
  "re_findall s =
     concat (map (\<lambda>seg. case seg of Lit c \<Rightarrow> [] | Ref kw ident \<Rightarrow> [(kw, ident)])
                 (re_scan False s))"




text \<open>
  The same match, read off the text directly, for the proofs: the leading run of word
  characters is one of the keywords (in any case), whitespace follows, and after the
  whitespace comes an identifier start; the identifier is the run of word characters
  from there. \<open>match_at_spec\<close> below shows that this is what the pattern matches.
\<close>

definition is_kw :: "string \<Rightarrow> bool" where
  "is_kw kw = (lower kw \<in> set (map lower table_keywords))"

definition match_spec :: "string \<Rightarrow> (string \<times> string \<times> string) option" where
  "match_spec x =
     (let kw = takeWhile is_word x;
          r1 = dropWhile is_word x;
          r2 = dropWhile is_space r1
      in if is_kw kw \<and> takeWhile is_space r1 \<noteq> [] \<and> r2 \<noteq> [] \<and> is_ident_start (hd r2)
         then Some (kw, takeWhile is_word r2, dropWhile is_word r2)
         else None)"

text \<open>
  The rewriting from a given state of the walk, and the name that \<open>replace_table_name\<close>
  looks up (\<open>table_case_map.get(table_name.lower(), table_name)\<close>).
\<close>

definition re_sub_from :: "(string \<Rightarrow> string \<Rightarrow> string) \<Rightarrow> bool \<Rightarrow> string \<Rightarrow> string" where
  "re_sub_from repl pw s = concat (map (render repl) (re_scan pw s))"


section \<open>Selecting the relevant tables\<close>

text \<open>
  A table candidate as the similarity search returns it. The schema of the table is
  carried along untouched and lives in the extension slot of the record.
\<close>

record table_candidate =
  table_name :: string
  description :: string
  similarity_score :: real

text \<open>\<open>str.strip()\<close> and \<open>str.split(',')\<close>.\<close>

definition py_strip :: "string \<Rightarrow> string" where
  "py_strip s = rev (dropWhile is_space (rev (dropWhile is_space s)))"

fun split_comma :: "string \<Rightarrow> string list" where
  "split_comma [] = [[]]"
| "split_comma (c # cs) =
     (if c = CHR '','' then [] # split_comma cs
      else (case split_comma cs of
              [] \<Rightarrow> [[c]]
            | p # ps \<Rightarrow> (c # p) # ps))"

text \<open>
  \<open>validate_tables\<close>, with the content of the completion response as a parameter
  (the prompt it was obtained with does not enter the result).
\<close>

definition validate_tables ::
  "('a table_candidate_scheme) list \<Rightarrow> string \<Rightarrow> ('a table_candidate_scheme) list" where
  "validate_tables relevant_tables content =
     (let validated_tables = split_comma (py_strip content)
      in filter (\<lambda>t. table_name t \<in> set validated_tables) relevant_tables)"

text \<open>\<open>','.join\<close>, the inverse of the split.\<close>

fun join_comma :: "string list \<Rightarrow> string" where
  "join_comma [] = []"
| "join_comma [p] = p"
| "join_comma (p # q # ps) = p @ CHR '','' # join_comma (q # ps)"


section \<open>Confidence scores\<close>

text \<open>
  A Python float is a finite number, an infinity or NaN; only its order is used here.
  NaN compares false with everything.
\<close>

datatype pyfloat = NaN | NegInf | Finite real | PosInf

fun float_gt :: "pyfloat \<Rightarrow> pyfloat \<Rightarrow> bool" where
  "float_gt NaN y = False"
| "float_gt x NaN = False"
| "float_gt PosInf PosInf = False"
| "float_gt PosInf y = True"
| "float_gt x PosInf = False"
| "float_gt NegInf y = False"
| "float_gt (Finite a) NegInf = True"
| "float_gt (Finite a) (Finite b) = (b < a)"

text \<open>
  \<open>evaluate_query_confidence\<close>: the content of the completion response is stripped and
  given to \<open>float\<close>, which returns a float or raises \<open>ValueError\<close> (here \<open>None\<close>);
  the \<open>except ValueError\<close> branch returns 0.0. The builtin \<open>float\<close> is a parameter.
\<close>

definition evaluate_query_confidence :: "(string \<Rightarrow> pyfloat option) \<Rightarrow> string \<Rightarrow> pyfloat" where
  "evaluate_query_confidence py_float content =
     (case py_float (py_strip content) of
        Some score \<Rightarrow> score
      | None \<Rightarrow> Finite 0)"

section \<open>Chunking and choosing the best query\<close>

definition MAX_TOKENS :: nat where
  "MAX_TOKENS = 4000"

definition TOKENS_PER_TABLE :: nat where
  "TOKENS_PER_TABLE = 800"

definition tables_per_chunk :: nat where
  "tables_per_chunk = max 1 (MAX_TOKENS div TOKENS_PER_TABLE)"

text \<open>
  \<open>range(i, n, step)\<close> for a positive step (Python raises on step 0, which
  \<open>max(1, ...)\<close> excludes), and the slice \<open>xs[i:j]\<close> for indices that are not negative.
\<close>

function py_range :: "nat \<Rightarrow> nat \<Rightarrow> nat \<Rightarrow> nat list" where
  "py_range i n step = (if 0 < step \<and> i < n then i # py_range (i + step) n step else [])"
  by pat_completeness auto
termination
  by (relation "measure (\<lambda>(i, n, step). n - i)") auto

declare py_range.simps [simp del]

definition slice :: "'a list \<Rightarrow> nat \<Rightarrow> nat \<Rightarrow> 'a list" where
  "slice xs i j = drop i (take j xs)"


text \<open>
  \<open>generate_sql\<close> first validates the candidates (the content of that completion
  response is the parameter \<open>content\<close>). The two completion calls of the loop body
  are parameters as well: \<open>propose i chunk\<close> is the
  query that \<open>process_schema_chunk\<close> returns for the chunk starting at index \<open>i\<close>, and
  \<open>score i sql chunk\<close> is the confidence that \<open>evaluate_query_confidence\<close> returns for it.
  The loop state is the pair of \<open>best_query\<close> and \<open>highest_confidence\<close>.
\<close>

definition chunk_step ::
  "(nat \<Rightarrow> 'a list \<Rightarrow> string) \<Rightarrow> (nat \<Rightarrow> string \<Rightarrow> 'a list \<Rightarrow> pyfloat) \<Rightarrow> 'a list \<Rightarrow>
   string option \<times> pyfloat \<Rightarrow> nat \<Rightarrow> string option \<times> pyfloat" where
  "chunk_step propose score validated_tables st i =
     (let chunk = slice validated_tables i (i + tables_per_chunk);
          proposed_query = propose i chunk;
          confidence = score i proposed_query chunk
      in if float_gt confidence (snd st) then (Some proposed_query, confidence) else st)"

definition generate_sql ::
  "string \<Rightarrow> (nat \<Rightarrow> 'a table_candidate_scheme list \<Rightarrow> string) \<Rightarrow>
   (nat \<Rightarrow> string \<Rightarrow> 'a table_candidate_scheme list \<Rightarrow> pyfloat) \<Rightarrow>
   'a table_candidate_scheme list \<Rightarrow> string option" where
  "generate_sql content propose score relevant_tables =
     (let validated_tables = validate_tables relevant_tables content
      in if length validated_tables \<le> tables_per_chunk
         then Some (propose 0 validated_tables)
         else fst (foldl (chunk_step propose score validated_tables) (None, Finite 0)
                     (py_range 0 (length validated_tables) tables_per_chunk)))"

text \<open>
  The query proposed for the chunk that starts at index \<open>i\<close> and its confidence, as
  the loop body computes them.
\<close>

definition chunk_query :: "(nat \<Rightarrow> 'a list \<Rightarrow> string) \<Rightarrow> 'a list \<Rightarrow> nat \<Rightarrow> string" where
  "chunk_query propose validated_tables i =
     propose i (slice validated_tables i (i + tables_per_chunk))"

definition chunk_confidence ::
  "(nat \<Rightarrow> 'a list \<Rightarrow> string) \<Rightarrow> (nat \<Rightarrow> string \<Rightarrow> 'a list \<Rightarrow> pyfloat) \<Rightarrow> 'a list \<Rightarrow>
   nat \<Rightarrow> pyfloat" where
  "chunk_confidence propose score validated_tables i =
     score i (chunk_query propose validated_tables i)
       (slice validated_tables i (i + tables_per_chunk))"

text \<open>
  The caller, \<open>process_query\<close>, up to the execution of the query: an empty candidate
  list and a missing or empty query each raise \<open>ValueError\<close> with its own message.
\<close>

datatype pipeline_error = NoRelevantTables | FailedToGenerateSQL

definition process_query ::
  "'a list \<Rightarrow> ('a list \<Rightarrow> string option) \<Rightarrow> pipeline_error + string" where
  "process_query relevant_tables generate =
     (if relevant_tables = [] then Inl NoRelevantTables
      else (case generate relevant_tables of
              None \<Rightarrow> Inl FailedToGenerateSQL
            | Some sql_query \<Rightarrow>
                if sql_query = [] then Inl FailedToGenerateSQL else Inr sql_query))"

section \<open>Example inputs\<close>

text \<open>
  Eleven candidates that the relevance response keeps, so that the loop runs over three
  chunks (starting at 0, 5 and 10), with confidences 0.3, 0.9, 0.9 and with confidences
  none of which exceeds 0.
\<close>

definition example_tables :: "table_candidate list" where
  "example_tables =
     map (\<lambda>c. \<lparr>table_name = [c], description = [], similarity_score = 1\<rparr>) ''abcdefghijk''"

definition example_content :: string where
  "example_content = ''a,b,c,d,e,f,g,h,i,j,k''"

definition example_propose :: "nat \<Rightarrow> table_candidate list \<Rightarrow> string" where
  "example_propose i chunk = (if i = 0 then ''Q0'' else if i = 5 then ''Q5'' else ''Q10'')"

definition example_score :: "nat \<Rightarrow> string \<Rightarrow> table_candidate list \<Rightarrow> pyfloat" where
  "example_score i sql chunk = (if i = 0 then Finite 0.3 else Finite 0.9)"

definition example_low_score :: "nat \<Rightarrow> string \<Rightarrow> table_candidate list \<Rightarrow> pyfloat" where
  "example_low_score i sql chunk =
     (if i = 0 then Finite 0 else if i = 5 then NaN else Finite (- 1))"




definition example_float :: "string \<Rightarrow> pyfloat option" where
  "example_float s = (if s = ''0.9'' then Some (Finite 0.9) else None)"

section \<open>Facts about the character classes\<close>

lemma of_char_lower:
  "(of_char (lower_char c) :: nat) = (if is_upper c then of_char c + 32 else of_char c)"
  by (simp add: lower_char_def is_upper_def)








lemmas char_class_defs = is_lower_def is_upper_def is_digit_def

section \<open>Claims about quoting\<close>






section \<open>Facts about the chunks\<close>

lemma tables_per_chunk_eq: "tables_per_chunk = 5"
  by (simp add: tables_per_chunk_def MAX_TOKENS_def TOKENS_PER_TABLE_def)







section \<open>Facts about the selection loop\<close>

lemma float_gt_not_NaN: "float_gt x y \<Longrightarrow> x \<noteq> NaN \<and> y \<noteq> NaN"
  by (cases x; cases y) auto

lemma float_gt_total: "x \<noteq> NaN \<Longrightarrow> y \<noteq> NaN \<Longrightarrow> x \<noteq> y \<Longrightarrow> \<not> float_gt x y \<Longrightarrow> float_gt y x"
  by (cases x; cases y) auto

lemma chunk_step_eq:
  "chunk_step propose score ts (b, h) i =
     (if float_gt (chunk_confidence propose score ts i) h
      then (Some (chunk_query propose ts i), chunk_confidence propose score ts i)
      else (b, h))"
  by (simp add: chunk_step_def chunk_confidence_def chunk_query_def Let_def)

lemma loop_unchanged:
  "\<forall>j \<in> set js. \<not> float_gt (chunk_confidence propose score ts j) h \<Longrightarrow>
   foldl (chunk_step propose score ts) (b, h) js = (b, h)"
  by (induction js) (simp_all add: chunk_step_eq)

lemma loop_highest:
  "snd (foldl (chunk_step propose score ts) (b, h) js) = h \<or>
   (\<exists>j \<in> set js. snd (foldl (chunk_step propose score ts) (b, h) js)
        = chunk_confidence propose score ts j \<and>
      chunk_confidence propose score ts j \<noteq> NaN)"
proof (induction js arbitrary: b h)
  case Nil
  then show ?case by simp
next
  case (Cons j js)
  show ?case
  proof (cases "float_gt (chunk_confidence propose score ts j) h")
    case True
    from Cons [of "Some (chunk_query propose ts j)" "chunk_confidence propose score ts j"]
      True float_gt_not_NaN [OF True]
    show ?thesis by (auto simp: chunk_step_eq)
  next
    case False
    from Cons [of b h] False show ?thesis by (auto simp: chunk_step_eq)
  qed
qed

lemma loop_first_best:
  assumes gt: "float_gt (chunk_confidence propose score ts i) h"
    and pre: "\<forall>j \<in> set pre. \<not> float_gt (chunk_confidence propose score ts j)
                 (chunk_confidence propose score ts i) \<and>
               chunk_confidence propose score ts j \<noteq> chunk_confidence propose score ts i"
    and post: "\<forall>j \<in> set post. \<not> float_gt (chunk_confidence propose score ts j)
                 (chunk_confidence propose score ts i)"
  shows "foldl (chunk_step propose score ts) (b, h) (pre @ i # post) =
           (Some (chunk_query propose ts i), chunk_confidence propose score ts i)"
proof -
  let ?c = "chunk_confidence propose score ts"
  obtain b' h' where s: "foldl (chunk_step propose score ts) (b, h) pre = (b', h')"
    by (cases "foldl (chunk_step propose score ts) (b, h) pre") auto
  from loop_highest [of propose score ts b h pre] s
  have "h' = h \<or> (\<exists>j \<in> set pre. h' = ?c j \<and> ?c j \<noteq> NaN)" by simp
  then have "float_gt (?c i) h'"
  proof
    assume "h' = h"
    with gt show ?thesis by simp
  next
    assume "\<exists>j \<in> set pre. h' = ?c j \<and> ?c j \<noteq> NaN"
    then obtain j where j: "j \<in> set pre" "h' = ?c j" "?c j \<noteq> NaN" by blast
    from pre j(1) have "\<not> float_gt (?c j) (?c i)" "?c j \<noteq> ?c i" by auto
    with j(3) float_gt_not_NaN [OF gt] have "float_gt (?c i) (?c j)"
      by (intro float_gt_total) auto
    with j(2) show ?thesis by simp
  qed
  then show ?thesis
    using post by (simp add: s chunk_step_eq loop_unchanged)
qed

lemma py_range_lower: "j \<in> set (py_range i n s) \<Longrightarrow> i \<le> j"
proof (induction i n s rule: py_range.induct)
  case (1 i n step)
  from 1(2) have c: "0 < step \<and> i < n"
    by (subst (asm) py_range.simps) (simp split: if_splits)
  with 1(2) have "j = i \<or> j \<in> set (py_range (i + step) n step)"
    by (subst (asm) py_range.simps) simp
  with 1(1) [OF c] show ?case by auto
qed

lemma py_range_sorted: "sorted_wrt (<) (py_range i n s)"
proof (induction i n s rule: py_range.induct)
  case (1 i n step)
  show ?case
  proof (cases "0 < step \<and> i < n")
    case True
    then have e: "py_range i n step = i # py_range (i + step) n step"
      by (subst py_range.simps) simp
    from True have "\<forall>j \<in> set (py_range (i + step) n step). i < j"
      using py_range_lower [of _ "i + step" n step] by fastforce
    with 1 [OF True] e show ?thesis by simp
  next
    case False
    then have "py_range i n step = []"
      by (subst py_range.simps) auto
    then show ?thesis by simp
  qed
qed

lemma example_validated: "validate_tables example_tables example_content = example_tables"
  by (simp add: validate_tables_def example_tables_def example_content_def py_strip_def
      is_space_def)

lemma example_range: "py_range 0 (length example_tables) tables_per_chunk = [0, 5, 10]"
  by (simp add: example_tables_def tables_per_chunk_eq py_range.simps)

section \<open>Claims about the selection loop\<close>

text \<open>
  C3. When the validated tables need more than one chunk, the loop returns the query of
  the first chunk whose confidence is the highest one: if the confidence of the chunk
  starting at \<open>i\<close> exceeds 0, no chunk has a greater confidence, and no earlier chunk
  has the same confidence, then \<open>generate_sql\<close> returns the query proposed for that
  chunk. A later chunk with the same confidence does not replace it, since the update
  needs a strictly greater confidence. With confidences 0.3, 0.9, 0.9 the result is the
  query of the second chunk.
\<close>

theorem generate_sql_first_best:
  assumes "validated = validate_tables relevant_tables content"
    and "tables_per_chunk < length validated"
    and "i \<in> set (py_range 0 (length validated) tables_per_chunk)"
    and "float_gt (chunk_confidence propose score validated i) (Finite 0)"
    and "\<forall>j \<in> set (py_range 0 (length validated) tables_per_chunk).
           \<not> float_gt (chunk_confidence propose score validated j)
               (chunk_confidence propose score validated i)"
    and "\<forall>j \<in> set (py_range 0 (length validated) tables_per_chunk).
           j < i \<longrightarrow> chunk_confidence propose score validated j
                       \<noteq> chunk_confidence propose score validated i"
  shows "generate_sql content propose score relevant_tables =
           Some (chunk_query propose validated i)"
proof -
  let ?r = "py_range 0 (length validated) tables_per_chunk"
  from assms(3) obtain pre post where sp: "?r = pre @ i # post"
    by (auto dest: split_list)
  have "sorted_wrt (<) ?r" by (rule py_range_sorted)
  then have lt: "\<forall>j \<in> set pre. j < i"
    by (simp add: sp sorted_wrt_append)
  have a: "\<forall>j \<in> set pre. \<not> float_gt (chunk_confidence propose score validated j)
                 (chunk_confidence propose score validated i) \<and>
               chunk_confidence propose score validated j
                 \<noteq> chunk_confidence propose score validated i"
    using assms(5,6) lt by (simp add: sp)
  have b: "\<forall>j \<in> set post. \<not> float_gt (chunk_confidence propose score validated j)
                 (chunk_confidence propose score validated i)"
    using assms(5) by (simp add: sp)
  from loop_first_best [OF assms(4) a b, of None]
  have "foldl (chunk_step propose score validated) (None, Finite 0) ?r =
          (Some (chunk_query propose validated i), chunk_confidence propose score validated i)"
    by (simp add: sp)
  with assms(1,2) show ?thesis
    by (simp add: generate_sql_def Let_def)
qed

theorem generate_sql_first_best_witness:
  "validate_tables example_tables example_content = example_tables \<and>
   tables_per_chunk < length example_tables \<and>
   py_range 0 (length example_tables) tables_per_chunk = [0, 5, 10] \<and>
   map (chunk_confidence example_propose example_score example_tables) [0, 5, 10]
     = [Finite 0.3, Finite 0.9, Finite 0.9] \<and>
   map (chunk_query example_propose example_tables) [0, 5, 10] = [''Q0'', ''Q5'', ''Q10''] \<and>
   generate_sql example_content example_propose example_score example_tables = Some ''Q5''"
proof -
  have l: "tables_per_chunk < length example_tables"
    by (simp add: example_tables_def tables_per_chunk_eq)
  have c: "map (chunk_confidence example_propose example_score example_tables) [0, 5, 10]
     = [Finite 0.3, Finite 0.9, Finite 0.9]"
    by (simp add: chunk_confidence_def example_score_def)
  have q: "map (chunk_query example_propose example_tables) [0, 5, 10] = [''Q0'', ''Q5'', ''Q10'']"
    by (simp add: chunk_query_def example_propose_def)
  have "generate_sql example_content example_propose example_score example_tables
          = Some (chunk_query example_propose example_tables 5)"
    using c
    by (intro generate_sql_first_best [where validated = example_tables])
       (simp_all add: example_validated l example_range)
  with example_validated l example_range c q show ?thesis by simp
qed

text \<open>
  C4. When the validated tables need more than one chunk and no chunk's confidence
  exceeds 0 (it is at most 0, or NaN), \<open>generate_sql\<close> returns \<open>None\<close>, and the caller
  \<open>process_query\<close> raises its "Failed to generate SQL query" error.
\<close>

theorem generate_sql_no_confidence:
  assumes "validated = validate_tables relevant_tables content"
    and "tables_per_chunk < length validated"
    and "\<forall>j \<in> set (py_range 0 (length validated) tables_per_chunk).
           \<not> float_gt (chunk_confidence propose score validated j) (Finite 0)"
  shows "generate_sql content propose score relevant_tables = None \<and>
         process_query relevant_tables (generate_sql content propose score)
           = Inl FailedToGenerateSQL"
proof -
  from loop_unchanged [OF assms(3), of None]
  have "foldl (chunk_step propose score validated) (None, Finite 0)
          (py_range 0 (length validated) tables_per_chunk) = (None, Finite 0)" .
  with assms(1,2) have g: "generate_sql content propose score relevant_tables = None"
    by (simp add: generate_sql_def Let_def)
  from assms(1,2) have "relevant_tables \<noteq> []"
    by (auto simp: validate_tables_def Let_def)
  with g show ?thesis by (simp add: process_query_def)
qed

theorem generate_sql_no_confidence_witness:
  "validate_tables example_tables example_content = example_tables \<and>
   tables_per_chunk < length example_tables \<and>
   py_range 0 (length example_tables) tables_per_chunk = [0, 5, 10] \<and>
   map (chunk_confidence example_propose example_low_score example_tables) [0, 5, 10]
     = [Finite 0, NaN, Finite (- 1)] \<and>
   generate_sql example_content example_propose example_low_score example_tables = None \<and>
   process_query example_tables (generate_sql example_content example_propose example_low_score)
     = Inl FailedToGenerateSQL"
proof -
  have l: "tables_per_chunk < length example_tables"
    by (simp add: example_tables_def tables_per_chunk_eq)
  have c: "map (chunk_confidence example_propose example_low_score example_tables) [0, 5, 10]
     = [Finite 0, NaN, Finite (- 1)]"
    by (simp add: chunk_confidence_def example_low_score_def)
  have "generate_sql example_content example_propose example_low_score example_tables = None \<and>
   process_query example_tables (generate_sql example_content example_propose example_low_score)
     = Inl FailedToGenerateSQL"
    using c
    by (intro generate_sql_no_confidence [where validated = example_tables])
       (simp_all add: example_validated l example_range)
  with example_validated l example_range c show ?thesis by simp
qed

section \<open>Claims about the relevance filter and the score parser\<close>

lemma split_comma_nonempty: "split_comma s \<noteq> []"
  by (induction s) (auto split: list.splits)

lemma split_comma_no_comma: "p \<in> set (split_comma s) \<Longrightarrow> CHR '','' \<notin> set p"
  by (induction s arbitrary: p) (auto split: if_splits list.splits)

lemma join_split_comma: "join_comma (split_comma s) = s"
proof (induction s)
  case Nil
  then show ?case by simp
next
  case (Cons c s)
  obtain p ps where e: "split_comma s = p # ps"
    using split_comma_nonempty [of s] by (cases "split_comma s") auto
  with Cons show ?case by (cases ps) auto
qed




text \<open>
  C9. \<open>evaluate_query_confidence\<close> gives the stripped response to \<open>float\<close>; when
  \<open>float\<close> raises \<open>ValueError\<close> the result is the confidence 0.0 (a value, not an
  error), and when it parses, the result is the parsed number.
\<close>

theorem evaluate_query_confidence_parse_failure:
  "(py_float (py_strip content) = None \<longrightarrow>
      evaluate_query_confidence py_float content = Finite 0) \<and>
   (\<forall>score. py_float (py_strip content) = Some score \<longrightarrow>
      evaluate_query_confidence py_float content = score)"
  by (simp add: evaluate_query_confidence_def)

theorem evaluate_query_confidence_parse_failure_witness:
  "example_float (py_strip ''high'') = None \<and>
   evaluate_query_confidence example_float ''high'' = Finite 0 \<and>
   example_float (py_strip '' 0.9 '') = Some (Finite 0.9) \<and>
   evaluate_query_confidence example_float '' 0.9 '' = Finite 0.9"
proof -
  have a: "example_float (py_strip ''high'') = None"
    by (simp add: example_float_def py_strip_def is_space_def)
  have b: "example_float (py_strip '' 0.9 '') = Some (Finite 0.9)"
    by (simp add: example_float_def py_strip_def is_space_def)
  from evaluate_query_confidence_parse_failure [of example_float "''high''"]
    evaluate_query_confidence_parse_failure [of example_float "'' 0.9 ''"] a b
  show ?thesis by simp
qed

section \<open>Facts about the pattern\<close>

lemma is_ident_char_word: "is_ident_char c = is_word c"
  by (simp add: is_ident_char_def is_word_def)

lemma is_ident_start_word: "is_ident_start c \<Longrightarrow> is_word c"
  by (auto simp: is_ident_start_def is_word_def)

lemma is_space_not_word: "is_space c \<Longrightarrow> \<not> is_word c"
  by (auto simp: is_space_def is_word_def char_class_defs)


text \<open>
  Backtracking cannot produce another match: with less whitespace taken the next
  character is whitespace, not an identifier start, and with a shorter identifier the
  match would end between two word characters.
\<close>

lemma takeWhile_nth_holds: "n < length (takeWhile P xs) \<Longrightarrow> n < length xs \<and> P (xs ! n)"
proof -
  assume a: "n < length (takeWhile P xs)"
  then have "takeWhile P xs ! n \<in> set (takeWhile P xs)" by simp
  then have "P (takeWhile P xs ! n)" by (auto dest: set_takeWhileD)
  moreover from a have "takeWhile P xs ! n = xs ! n" by (rule takeWhile_nth)
  moreover from a have "n < length xs"
    using length_takeWhile_le [of P xs] by simp
  ultimately show ?thesis by simp
qed

lemma shorter_whitespace_no_identifier:
  assumes "n < length (takeWhile is_space s)"
  shows "drop n s \<noteq> [] \<and> \<not> is_ident_start (hd (drop n s))"
proof -
  from takeWhile_nth_holds [OF assms] have "n < length s" "is_space (s ! n)" by simp_all
  then show ?thesis
    by (auto simp: hd_drop_conv_nth dest: is_ident_start_word is_space_not_word)
qed

lemma shorter_identifier_no_boundary:
  assumes "is_ident_start c" and "n < length (takeWhile is_ident_char cs)"
  shows "\<not> at_boundary (is_word (last (c # take n cs))) (drop n cs)"
proof -
  from takeWhile_nth_holds [OF assms(2)] have n: "n < length cs" "is_word (cs ! n)"
    by (simp_all add: is_ident_char_word)
  then have d: "drop n cs = cs ! n # drop (Suc n) cs" by (simp add: Cons_nth_drop_Suc)
  have "is_word (last (c # take n cs))"
  proof (cases n)
    case 0
    with assms(1) show ?thesis by (simp add: is_ident_start_word)
  next
    case (Suc k)
    with assms(2) have "k < length (takeWhile is_ident_char cs)" by simp
    from takeWhile_nth_holds [OF this] have "is_word (cs ! k)" by (simp add: is_ident_char_word)
    moreover from Suc n(1) have "take n cs \<noteq> []" by auto
    then have "last (c # take n cs) = last (take n cs)" by simp
    moreover from Suc n(1) have "last (take n cs) = cs ! k"
      by (simp add: take_Suc_conv_app_nth)
    ultimately show ?thesis by simp
  qed
  with n(2) show ?thesis by (simp add: at_boundary_def d)
qed

lemma lower_char_class:
  assumes "lower_char x = lower_char y"
  shows "is_ident_start x = is_ident_start y \<and> is_word x = is_word y"
proof -
  from assms have e: "(of_char (lower_char x) :: nat) = of_char (lower_char y)" by simp
  show ?thesis
  proof (cases "is_upper x \<or> is_upper y")
    case False
    with assms have "x = y" by (simp add: lower_char_def)
    then show ?thesis by simp
  next
    case True
    with e have "(is_lower x \<or> is_upper x) \<and> (is_lower y \<or> is_upper y)"
      by (auto simp: of_char_lower char_class_defs split: if_splits)
    then show ?thesis by (auto simp: is_ident_start_def is_word_def)
  qed
qed

lemma lower_eq_class:
  "lower a = lower b \<Longrightarrow> list_all is_word a = list_all is_word b \<and>
     (a = [] \<longleftrightarrow> b = []) \<and> (a \<noteq> [] \<longrightarrow> is_ident_start (hd a) = is_ident_start (hd b))"
proof (induction a arbitrary: b)
  case Nil
  then show ?case by (simp add: lower_def)
next
  case (Cons x a)
  then obtain y b' where b: "b = y # b'" "lower_char x = lower_char y" "lower a = lower b'"
    by (cases b) (auto simp: lower_def)
  from Cons.IH [OF b(3)] lower_char_class [OF b(2)] b(1) show ?case by simp
qed

lemma match_literal_iff:
  "match_literal k x = Some (kw, r) \<longleftrightarrow> x = kw @ r \<and> lower kw = lower k"
proof (induction k arbitrary: x kw r)
  case Nil
  then show ?case by (auto simp: lower_def)
next
  case (Cons p ps)
  show ?case
  proof (cases x)
    case Nil
    then show ?thesis by (auto simp: lower_def)
  next
    case (Cons c cs)
    show ?thesis
    proof (cases "lower_char c = lower_char p")
      case False
      with Cons show ?thesis by (cases kw) (auto simp: lower_def)
    next
      case True
      show ?thesis
      proof (cases kw)
        case Nil
        with Cons True show ?thesis by (auto simp: lower_def split: option.splits)
      next
        case (Cons d ds)
        from Cons.IH [of cs ds r] True \<open>x = c # cs\<close> Cons show ?thesis
          by (auto simp: lower_def split: option.splits)
      qed
    qed
  qed
qed


lemma keywords_letters: "k \<in> set table_keywords \<Longrightarrow> k \<noteq> [] \<and> list_all is_word k"
  by (auto simp: table_keywords_def is_word_def char_class_defs)

lemma is_kw_word: "is_kw kw \<Longrightarrow> kw \<noteq> [] \<and> list_all is_word kw"
proof -
  assume "is_kw kw"
  then obtain k where k: "k \<in> set table_keywords" "lower kw = lower k"
    by (auto simp: is_kw_def)
  from lower_eq_class [OF k(2)] keywords_letters [OF k(1)] show ?thesis by simp
qed

lemma takeWhile_run:
  "list_all P a \<Longrightarrow> b = [] \<or> \<not> P (hd b) \<Longrightarrow> takeWhile P (a @ b) = a \<and> dropWhile P (a @ b) = b"
proof (induction a)
  case Nil
  then show ?case by (cases b) auto
next
  case (Cons x a)
  then show ?case by simp
qed

lemma dropWhile_head: "dropWhile P x = [] \<or> \<not> P (hd (dropWhile P x))"
  using hd_dropWhile [of P x] by blast

lemma match_reference_iff:
  "match_reference r = Some (ident, rest) \<longleftrightarrow>
     takeWhile is_space r \<noteq> [] \<and> dropWhile is_space r \<noteq> [] \<and>
     is_ident_start (hd (dropWhile is_space r)) \<and>
     ident = takeWhile is_word (dropWhile is_space r) \<and>
     rest = dropWhile is_word (dropWhile is_space r)"
proof (cases "dropWhile is_space r")
  case Nil
  show ?thesis unfolding match_reference_def Nil by simp
next
  case (Cons c cs)
  let ?i = "c # takeWhile is_ident_char cs"
  let ?d = "dropWhile is_ident_char cs"
  have ic: "is_ident_char = is_word" by (rule ext) (rule is_ident_char_word)
  have w: "is_word (last ?i)" if "is_ident_start c"
  proof (cases "takeWhile is_ident_char cs = []")
    case True
    with that show ?thesis by (simp add: is_ident_start_word)
  next
    case False
    then have "last ?i \<in> set (takeWhile is_ident_char cs)" by simp
    then show ?thesis by (auto dest: set_takeWhileD simp: is_ident_char_word)
  qed
  have b: "at_boundary True ?d"
  proof (cases ?d)
    case Nil
    show ?thesis unfolding at_boundary_def Nil by simp
  next
    case (Cons e es)
    with hd_dropWhile [of is_ident_char cs] have "\<not> is_word e"
      by (simp add: is_ident_char_word)
    then show ?thesis unfolding at_boundary_def Cons by simp
  qed
  show ?thesis
    using Cons w b
    by (auto simp: match_reference_def Let_def is_ident_start_word ic)
qed

lemma match_literal_reference_spec:
  assumes k: "k \<in> set table_keywords"
    and l: "match_literal k x = Some (kw, r)"
    and m: "match_reference r = Some (ident, rest)"
  shows "match_spec x = Some (kw, ident, rest)"
proof -
  from l have x: "x = kw @ r" and lk: "lower kw = lower k"
    by (simp_all add: match_literal_iff)
  from k lk have kw: "is_kw kw" by (auto simp: is_kw_def)
  from m have r: "takeWhile is_space r \<noteq> []" by (simp add: match_reference_iff)
  then have "r \<noteq> [] \<and> is_space (hd r)" by (cases r) (auto split: if_splits)
  then have "r = [] \<or> \<not> is_word (hd r)" by (auto dest: is_space_not_word)
  with is_kw_word [OF kw] have t: "takeWhile is_word x = kw \<and> dropWhile is_word x = r"
    unfolding x by (intro takeWhile_run) auto
  with kw m show ?thesis
    by (simp add: match_spec_def Let_def match_reference_iff)
qed

lemma match_spec_literal_reference:
  assumes "match_spec x = Some (kw, ident, rest)"
  shows "\<exists>k \<in> set table_keywords. \<exists>r. match_literal k x = Some (kw, r) \<and>
           match_reference r = Some (ident, rest)"
proof -
  let ?r = "dropWhile is_word x"
  from assms have kw: "kw = takeWhile is_word x" "is_kw kw"
    and m: "match_reference ?r = Some (ident, rest)"
    by (auto simp: match_spec_def Let_def match_reference_iff split: if_splits)
  from kw(2) obtain k where k: "k \<in> set table_keywords" "lower kw = lower k"
    by (auto simp: is_kw_def)
  have "x = kw @ ?r" by (simp add: kw(1))
  with k(2) have "match_literal k x = Some (kw, ?r)" by (simp add: match_literal_iff)
  with k(1) m show ?thesis by blast
qed

lemma match_alternatives_sound:
  "match_alternatives ks x = Some res \<Longrightarrow>
   \<exists>k \<in> set ks. \<exists>kw r ident rest. match_literal k x = Some (kw, r) \<and>
      match_reference r = Some (ident, rest) \<and> res = (kw, ident, rest)"
  by (induction ks) (auto split: option.splits)

lemma match_alternatives_complete:
  assumes "set ks \<subseteq> set table_keywords" and "k \<in> set ks"
    and "match_literal k x = Some (kw, r)" and "match_reference r = Some (ident, rest)"
  shows "match_alternatives ks x = Some (kw, ident, rest)"
  using assms(1,2)
proof (induction ks)
  case Nil
  then show ?case by simp
next
  case (Cons k' ks)
  have s: "match_spec x = Some (kw, ident, rest)"
    using match_literal_reference_spec [OF _ assms(3,4)] assms(1,2) by auto
  show ?case
  proof (cases "match_literal k' x")
    case None
    with Cons assms(3) show ?thesis by auto
  next
    case (Some a)
    obtain kw' r' where a: "a = (kw', r')" by (cases a)
    show ?thesis
    proof (cases "match_reference r'")
      case None
      with Some a Cons assms(3,4) show ?thesis by auto
    next
      case (Some b)
      obtain i' rest' where b: "b = (i', rest')" by (cases b)
      from Cons(2) have "k' \<in> set table_keywords" by simp
      from match_literal_reference_spec [OF this] \<open>match_literal k' x = Some a\<close> Some a b
      have "match_spec x = Some (kw', i', rest')" by simp
      with s \<open>match_literal k' x = Some a\<close> Some a b show ?thesis by simp
    qed
  qed
qed

lemma match_alternatives_spec: "match_alternatives table_keywords x = match_spec x"
proof (cases "match_spec x")
  case None
  show ?thesis
  proof (cases "match_alternatives table_keywords x")
    case None
    with \<open>match_spec x = None\<close> show ?thesis by simp
  next
    case (Some res)
    from match_alternatives_sound [OF this] match_literal_reference_spec None
    show ?thesis by fastforce
  qed
next
  case (Some res)
  obtain kw ident rest where res: "res = (kw, ident, rest)" by (cases res)
  from match_spec_literal_reference [of x kw ident rest] Some res
  obtain k r where "k \<in> set table_keywords" "match_literal k x = Some (kw, r)"
    "match_reference r = Some (ident, rest)" by auto
  from match_alternatives_complete [OF subset_refl this] Some res show ?thesis by simp
qed

lemma match_spec_head: "match_spec x = Some res \<Longrightarrow> x \<noteq> [] \<and> is_word (hd x)"
proof -
  assume "match_spec x = Some res"
  then have "is_kw (takeWhile is_word x)"
    by (auto simp: match_spec_def Let_def split: if_splits)
  from is_kw_word [OF this] show ?thesis
    by (cases x) (auto split: if_splits)
qed

lemma match_at_spec: "match_at pw x = (if pw then None else match_spec x)"
proof (cases "match_spec x")
  case None
  then show ?thesis by (simp add: match_at_def match_alternatives_spec)
next
  case (Some res)
  from match_spec_head [OF this] have "at_boundary pw x = (\<not> pw)"
    by (cases x) (auto simp: at_boundary_def)
  then show ?thesis by (simp add: match_at_def match_alternatives_spec)
qed

lemma match_spec_shape:
  "match_spec x = Some (kw, ident, rest) \<longleftrightarrow>
     (\<exists>ws. x = kw @ ws @ ident @ rest \<and> is_kw kw \<and> ws \<noteq> [] \<and> list_all is_space ws \<and>
        ident \<noteq> [] \<and> is_ident_start (hd ident) \<and> list_all is_word ident \<and>
        (rest = [] \<or> \<not> is_word (hd rest)))"
proof
  assume a: "match_spec x = Some (kw, ident, rest)"
  let ?r1 = "dropWhile is_word x"
  let ?ws = "takeWhile is_space ?r1"
  let ?r2 = "dropWhile is_space ?r1"
  from a have f: "kw = takeWhile is_word x" "is_kw kw" "?ws \<noteq> []" "?r2 \<noteq> []"
    "is_ident_start (hd ?r2)" "ident = takeWhile is_word ?r2" "rest = dropWhile is_word ?r2"
    by (auto simp: match_spec_def Let_def split: if_splits)
  have x: "x = kw @ ?ws @ ident @ rest" by (simp add: f(1,6,7))
  have s: "list_all is_space ?ws" by (auto simp: list_all_iff dest: set_takeWhileD)
  from f(4,5) have i: "ident \<noteq> [] \<and> is_ident_start (hd ident)"
    unfolding f(6) by (cases ?r2) (auto simp: is_ident_start_word)
  have w: "list_all is_word ident" unfolding f(6) by (auto simp: list_all_iff dest: set_takeWhileD)
  have "rest = [] \<or> \<not> is_word (hd rest)" unfolding f(7) by (rule dropWhile_head)
  with x f(2,3) s i w show "\<exists>ws. x = kw @ ws @ ident @ rest \<and> is_kw kw \<and> ws \<noteq> [] \<and>
        list_all is_space ws \<and> ident \<noteq> [] \<and> is_ident_start (hd ident) \<and>
        list_all is_word ident \<and> (rest = [] \<or> \<not> is_word (hd rest))" by blast
next
  assume "\<exists>ws. x = kw @ ws @ ident @ rest \<and> is_kw kw \<and> ws \<noteq> [] \<and> list_all is_space ws \<and>
        ident \<noteq> [] \<and> is_ident_start (hd ident) \<and> list_all is_word ident \<and>
        (rest = [] \<or> \<not> is_word (hd rest))"
  then obtain ws where x: "x = kw @ ws @ ident @ rest" and k: "is_kw kw"
    and ws: "ws \<noteq> []" "list_all is_space ws"
    and i: "ident \<noteq> []" "is_ident_start (hd ident)" "list_all is_word ident"
    and r: "rest = [] \<or> \<not> is_word (hd rest)" by blast
  from ws have h1: "\<not> is_word (hd (ws @ ident @ rest))"
    by (cases ws) (auto dest: is_space_not_word)
  from is_kw_word [OF k] h1
  have t1: "takeWhile is_word x = kw \<and> dropWhile is_word x = ws @ ident @ rest"
    unfolding x by (intro takeWhile_run) auto
  from i have h2: "\<not> is_space (hd (ident @ rest))"
    by (cases ident) (auto dest: is_ident_start_word is_space_not_word)
  from ws(2) h2
  have t2: "takeWhile is_space (ws @ ident @ rest) = ws \<and>
            dropWhile is_space (ws @ ident @ rest) = ident @ rest"
    by (intro takeWhile_run) auto
  from i(3) r
  have t3: "takeWhile is_word (ident @ rest) = ident \<and> dropWhile is_word (ident @ rest) = rest"
    by (intro takeWhile_run) auto
  note t = conjunct1 [OF t1] conjunct2 [OF t1] conjunct1 [OF t2] conjunct2 [OF t2]
    conjunct1 [OF t3] conjunct2 [OF t3]
  from k ws(1) i(1,2) show "match_spec x = Some (kw, ident, rest)"
    unfolding match_spec_def Let_def t by simp
qed


lemma re_sub_from_copy:
  "match_at pw (c # cs) = None \<Longrightarrow>
   re_sub_from repl pw (c # cs) = c # re_sub_from repl (is_word c) cs"
  by (simp add: re_sub_from_def render_def)


lemma match_at_nonword: "\<not> is_word c \<Longrightarrow> match_at pw (c # cs) = None"
  using match_spec_head [of "c # cs"] by (cases "match_spec (c # cs)") (auto simp: match_at_spec)


lemma re_sub_from_nonword:
  "\<not> is_word c \<Longrightarrow> re_sub_from repl pw (c # cs) = c # re_sub_from repl False cs"
  by (simp add: re_sub_from_copy match_at_nonword)




lemma re_sub_from_spaces:
  "list_all is_space ws \<Longrightarrow> ws \<noteq> [] \<Longrightarrow>
   re_sub_from repl pw (ws @ y) = ws @ re_sub_from repl False y"
proof (induction ws arbitrary: pw)
  case Nil
  then show ?case by simp
next
  case (Cons a ws)
  then have a: "\<not> is_word a" by (auto dest: is_space_not_word)
  show ?case
  proof (cases "ws = []")
    case True
    with a show ?thesis by (simp add: re_sub_from_nonword)
  next
    case False
    with Cons a show ?thesis by (simp add: re_sub_from_nonword)
  qed
qed

















section \<open>Claims about the rewriting\<close>


section \<open>Facts about the references found\<close>




lemma findall_segment:
  "(kw, ident) \<in> set (re_findall s) \<longleftrightarrow> Ref kw ident \<in> set (re_scan False s)"
  by (auto simp: re_findall_def split: segment.splits)


text \<open>
  What a found reference looks like: the keyword (in any case) stands at a word
  boundary, whitespace follows, then the whole identifier up to the next character
  that is not a word character.
\<close>

lemma scan_shape:
  "Ref kw ident \<in> set (re_scan pw s) \<Longrightarrow>
   \<exists>pre ws rest. s = pre @ kw @ ws @ ident @ rest \<and>
     (if pre = [] then \<not> pw else \<not> is_word (last pre)) \<and> is_kw kw \<and>
     ws \<noteq> [] \<and> list_all is_space ws \<and> ident \<noteq> [] \<and> is_ident_start (hd ident) \<and>
     list_all is_word ident \<and> (rest = [] \<or> \<not> is_word (hd rest))"
proof (induction pw s rule: re_scan.induct)
  case (1 pw)
  then show ?case by simp
next
  case (2 pw c cs)
  let ?P = "\<lambda>pw s pre ws rest. s = pre @ kw @ ws @ ident @ rest \<and>
     (if pre = [] then \<not> pw else \<not> is_word (last pre)) \<and> is_kw kw \<and>
     ws \<noteq> [] \<and> list_all is_space ws \<and> ident \<noteq> [] \<and> is_ident_start (hd ident) \<and>
     list_all is_word ident \<and> (rest = [] \<or> \<not> is_word (hd rest))"
  show ?case
  proof (cases "match_at pw (c # cs)")
    case None
    with 2(3) have "Ref kw ident \<in> set (re_scan (is_word c) cs)" by simp
    from 2(1) [OF None this] obtain pre ws rest where p: "?P (is_word c) cs pre ws rest"
      by blast
    then have "?P pw (c # cs) (c # pre) ws rest" by (auto split: if_splits)
    then show ?thesis by blast
  next
    case (Some res)
    obtain kw' ident' rest' where res: "res = (kw', ident', rest')" by (cases res)
    from Some res have pw: "\<not> pw" and ms: "match_spec (c # cs) = Some (kw', ident', rest')"
      by (simp_all add: match_at_spec split: if_splits)
    from ms obtain ws' where sh: "c # cs = kw' @ ws' @ ident' @ rest'" "is_kw kw'"
      "ws' \<noteq> []" "list_all is_space ws'" "ident' \<noteq> []" "is_ident_start (hd ident')"
      "list_all is_word ident'" "rest' = [] \<or> \<not> is_word (hd rest')"
      unfolding match_spec_shape by blast
    from 2(3) Some res
    have "(kw = kw' \<and> ident = ident') \<or> Ref kw ident \<in> set (re_scan (is_word (last ident')) rest')"
      by simp
    then show ?thesis
    proof
      assume "kw = kw' \<and> ident = ident'"
      with sh pw have "?P pw (c # cs) [] ws' rest'" by simp
      then show ?thesis by blast
    next
      assume a: "Ref kw ident \<in> set (re_scan (is_word (last ident')) rest')"
      from sh(5,7) have li: "is_word (last ident')" by (auto simp: list_all_iff)
      from 2(2) [OF Some res [symmetric] refl a] obtain pre ws rest
        where p: "?P (is_word (last ident')) rest' pre ws rest" by blast
      with li have ne: "pre \<noteq> []" by (auto split: if_splits)
      with p sh(1) have "?P pw (c # cs) (kw' @ ws' @ ident' @ pre) ws rest" by simp
      then show ?thesis by blast
    qed
  qed
qed

lemma findall_shape:
  "(kw, ident) \<in> set (re_findall s) \<Longrightarrow>
   \<exists>pre ws rest. s = pre @ kw @ ws @ ident @ rest \<and>
     (pre = [] \<or> \<not> is_word (last pre)) \<and> is_kw kw \<and>
     ws \<noteq> [] \<and> list_all is_space ws \<and> ident \<noteq> [] \<and> is_ident_start (hd ident) \<and>
     list_all is_word ident \<and> (rest = [] \<or> \<not> is_word (hd rest))"
proof -
  assume "(kw, ident) \<in> set (re_findall s)"
  then have "Ref kw ident \<in> set (re_scan False s)" by (simp add: findall_segment)
  from scan_shape [OF this] obtain pre ws rest where
    "s = pre @ kw @ ws @ ident @ rest \<and>
     (if pre = [] then \<not> False else \<not> is_word (last pre)) \<and> is_kw kw \<and>
     ws \<noteq> [] \<and> list_all is_space ws \<and> ident \<noteq> [] \<and> is_ident_start (hd ident) \<and>
     list_all is_word ident \<and> (rest = [] \<or> \<not> is_word (hd rest))" by blast
  then have "s = pre @ kw @ ws @ ident @ rest \<and>
     (pre = [] \<or> \<not> is_word (last pre)) \<and> is_kw kw \<and>
     ws \<noteq> [] \<and> list_all is_space ws \<and> ident \<noteq> [] \<and> is_ident_start (hd ident) \<and>
     list_all is_word ident \<and> (rest = [] \<or> \<not> is_word (hd rest))"
    by (auto split: if_splits)
  then show ?thesis by blast
qed

text \<open>
  The first keyword of the text is found: when no word that begins in \<open>pre\<close> is a
  keyword and \<open>pre\<close> does not end inside a word, a keyword after \<open>pre\<close> that is
  followed by whitespace and an identifier is a reference.
\<close>

lemma scan_first:
  assumes "\<forall>a b. pre = a @ b \<longrightarrow> \<not> is_kw (takeWhile is_word b)"
    and "if pre = [] then \<not> pw else \<not> is_word (last pre)"
    and "match_spec s = Some (kw, ident, rest)"
  shows "re_scan pw (pre @ s) = map Lit pre @ Ref kw ident # re_scan True rest"
  using assms(1,2)
proof (induction pre arbitrary: pw)
  case Nil
  from assms(3) have "is_word (last ident)"
    unfolding match_spec_shape by (auto simp: list_all_iff)
  with Nil assms(3) match_spec_head [OF assms(3)] show ?case
    by (cases s) (simp_all add: match_at_spec)
next
  case (Cons c pre)
  have nw: "\<exists>x \<in> set (c # pre). \<not> is_word x"
    using Cons(3) last_in_set [of "c # pre"] by (auto split: if_splits)
  have "match_at pw (c # pre @ s) = None"
  proof (cases "match_spec ((c # pre) @ s)")
    case None
    then show ?thesis by (simp add: match_at_spec)
  next
    case (Some res)
    then have "is_kw (takeWhile is_word ((c # pre) @ s))"
      by (auto simp: match_spec_def Let_def split: if_splits)
    moreover from nw obtain x where "x \<in> set (c # pre)" "\<not> is_word x" by blast
    then have "takeWhile is_word ((c # pre) @ s) = takeWhile is_word (c # pre)"
      by (rule takeWhile_append1)
    ultimately have "is_kw (takeWhile is_word (c # pre))" by simp
    with Cons(2) [rule_format, of "[]" "c # pre"] show ?thesis by simp
  qed
  moreover have "re_scan (is_word c) (pre @ s) = map Lit pre @ Ref kw ident # re_scan True rest"
  proof (rule Cons(1))
    show "\<forall>a b. pre = a @ b \<longrightarrow> \<not> is_kw (takeWhile is_word b)"
    proof (intro allI impI)
      fix a b assume "pre = a @ b"
      then have "c # pre = (c # a) @ b" by simp
      with Cons(2) show "\<not> is_kw (takeWhile is_word b)" by blast
    qed
    show "if pre = [] then \<not> is_word c else \<not> is_word (last pre)"
      using Cons(3) by (auto split: if_splits)
  qed
  ultimately show ?case by simp
qed

lemma findall_first:
  assumes "\<forall>a b. pre = a @ b \<longrightarrow> \<not> is_kw (takeWhile is_word b)"
    and "pre = [] \<or> \<not> is_word (last pre)"
    and "is_kw kw" and "ws \<noteq> []" and "list_all is_space ws"
    and "ident \<noteq> []" and "is_ident_start (hd ident)" and "list_all is_word ident"
    and "rest = [] \<or> \<not> is_word (hd rest)"
  shows "(kw, ident) \<in> set (re_findall (pre @ kw @ ws @ ident @ rest))"
proof -
  have "match_spec (kw @ ws @ ident @ rest) = Some (kw, ident, rest)"
    unfolding match_spec_shape using assms(3-9) by blast
  from scan_first [OF assms(1) _ this, of False] assms(2) show ?thesis
    by (auto simp: findall_segment split: if_splits)
qed

section \<open>Claims about the references\<close>







end
